theory Spec2Isabelle
  imports Main "HOL-Library.Char_ord"
begin

section \<open>JavaScript strings\<close>

text \<open>
  Bundle text is a JavaScript string. It is modelled as a \<open>string\<close>, one \<open>char\<close> per code
  unit, so the model covers texts whose code units lie in the range 0..255. Within that
  range the white space of \<open>String.prototype.trim\<close> is TAB, LF, VT, FF, CR, SPACE and
  NBSP, the line terminators are LF and CR, and the word characters of \<open>\w\<close> are the
  ASCII letters, the digits and the underscore.
\<close>

definition is_white_space :: "char \<Rightarrow> bool" where
  "is_white_space c = (c \<in> set [CHR 0x09, CHR 0x0A, CHR 0x0B, CHR 0x0C, CHR 0x0D, CHR 0x20, CHR 0xA0])"

definition is_line_terminator :: "char \<Rightarrow> bool" where
  "is_line_terminator c = (c = CHR 0x0A \<or> c = CHR 0x0D)"

definition is_digit :: "char \<Rightarrow> bool" where
  "is_digit c = (CHR ''0'' \<le> c \<and> c \<le> CHR ''9'')"

definition is_word_char :: "char \<Rightarrow> bool" where
  "is_word_char c = ((CHR ''a'' \<le> c \<and> c \<le> CHR ''z'') \<or> (CHR ''A'' \<le> c \<and> c \<le> CHR ''Z'')
     \<or> is_digit c \<or> c = CHR ''_'')"

definition trim :: "string \<Rightarrow> string" where
  "trim s = rev (dropWhile is_white_space (rev (dropWhile is_white_space s)))"

definition startsWith :: "string \<Rightarrow> string \<Rightarrow> bool" where
  "startsWith s pat = (take (length pat) s = pat)"

definition endsWith :: "string \<Rightarrow> string \<Rightarrow> bool" where
  "endsWith s pat = (length pat \<le> length s \<and> drop (length s - length pat) s = pat)"

text \<open>\<open>s.slice(b, e)\<close>: a negative index counts from the end, and both ends are clamped.\<close>

definition slice :: "string \<Rightarrow> int \<Rightarrow> int \<Rightarrow> string" where
  "slice s b e =
     (let len = int (length s);
          from = (if b < 0 then max (len + b) 0 else min b len);
          to = (if e < 0 then max (len + e) 0 else min e len)
      in take (nat (to - from)) (drop (nat from) s))"

text \<open>\<open>s.indexOf(pat)\<close>: the first position where \<open>pat\<close> occurs, or -1.\<close>

fun index_from :: "string \<Rightarrow> string \<Rightarrow> nat \<Rightarrow> int" where
  "index_from pat [] i = (if pat = [] then int i else -1)"
| "index_from pat (c # cs) i = (if startsWith (c # cs) pat then int i else index_from pat cs (Suc i))"

definition indexOf :: "string \<Rightarrow> string \<Rightarrow> int" where
  "indexOf s pat = index_from pat s 0"

text \<open>
  \<open>s.replace(pat, rep)\<close> with a string pattern replaces the first occurrence only.
  (The replacement text used by the program contains no \<open>$\<close>.)
\<close>

fun replace_first :: "string \<Rightarrow> string \<Rightarrow> string \<Rightarrow> string" where
  "replace_first pat rep [] = (if pat = [] then rep else [])"
| "replace_first pat rep (c # cs) =
     (if startsWith (c # cs) pat then rep @ drop (length pat) (c # cs)
      else c # replace_first pat rep cs)"

section \<open>Regular expressions\<close>

text \<open>
  The regular expression literals of the program, as syntax trees, and a backtracking
  matcher for them. A matcher state is the text before the current position (reversed, so
  that its head is the previous character), the text from the current position on, and the
  captures made so far. \<open>rmatch r st\<close> lists the states in which a match of \<open>r\<close>
  starting in \<open>st\<close> can end, in the order in which a backtracking matcher tries them:
  a greedy quantifier tries one more iteration before it tries to stop. \<open>Dot\<close> is any
  character but a line terminator; \<open>WordB\<close> is \<open>\b\<close>; \<open>Bol\<close> and \<open>Eol\<close> are \<open>^\<close> and
  \<open>$\<close> under the flag \<open>m\<close>, the only way the program uses them; \<open>Group k\<close> is the
  k-th capturing group, and a non-capturing group is its body.
\<close>

datatype cls = CChar char | CWord | CDigit

datatype regex =
    Str string
  | Dot
  | Class "cls list"
  | NClass "cls list"
  | WordB
  | Bol
  | Eol
  | Cat regex regex
  | Opt regex
  | Star regex
  | Plus regex
  | Group nat regex

type_synonym captures = "(nat \<times> string) list"
type_synonym mstate = "string \<times> string \<times> captures"

fun in_cls :: "char \<Rightarrow> cls \<Rightarrow> bool" where
  "in_cls c (CChar d) = (c = d)"
| "in_cls c CWord = is_word_char c"
| "in_cls c CDigit = is_digit c"

definition in_class :: "cls list \<Rightarrow> char \<Rightarrow> bool" where
  "in_class cs c = list_ex (in_cls c) cs"

fun step_if :: "(char \<Rightarrow> bool) \<Rightarrow> mstate \<Rightarrow> mstate list" where
  "step_if P (p, [], g) = []"
| "step_if P (p, c # cs, g) = (if P c then [(c # p, cs, g)] else [])"

fun word_before :: "string \<Rightarrow> bool" where
  "word_before [] = False"
| "word_before (c # p) = is_word_char c"

fun remaining :: "mstate \<Rightarrow> nat" where
  "remaining (p, s, g) = length s"

text \<open>
  Greedy iteration of a matcher \<open>f\<close>. An iteration that consumes nothing is rejected, as
  in ECMAScript. Every accepted iteration consumes a character, so fuel equal to the
  length of the remaining text is never used up.
\<close>

fun iterate :: "(mstate \<Rightarrow> mstate list) \<Rightarrow> nat \<Rightarrow> mstate \<Rightarrow> mstate list" where
  "iterate f 0 st = [st]"
| "iterate f (Suc n) st =
     concat (map (\<lambda>st'. if remaining st' < remaining st then iterate f n st' else []) (f st)) @ [st]"

fun capture :: "nat \<Rightarrow> mstate \<Rightarrow> mstate \<Rightarrow> mstate" where
  "capture k (p, s, g) (p', s', g') = (p', s', (k, take (length s - length s') s) # g')"

primrec rmatch :: "regex \<Rightarrow> mstate \<Rightarrow> mstate list" where
  "rmatch (Str w) st =
     (case st of (p, s, g) \<Rightarrow> if startsWith s w then [(rev w @ p, drop (length w) s, g)] else [])"
| "rmatch Dot st = step_if (\<lambda>c. \<not> is_line_terminator c) st"
| "rmatch (Class cs) st = step_if (in_class cs) st"
| "rmatch (NClass cs) st = step_if (\<lambda>c. \<not> in_class cs c) st"
| "rmatch WordB st =
     (case st of (p, s, g) \<Rightarrow> if word_before p \<noteq> word_before s then [st] else [])"
| "rmatch Bol st =
     (case st of (p, s, g) \<Rightarrow> if p = [] \<or> is_line_terminator (hd p) then [st] else [])"
| "rmatch Eol st =
     (case st of (p, s, g) \<Rightarrow> if s = [] \<or> is_line_terminator (hd s) then [st] else [])"
| "rmatch (Cat a b) st = concat (map (rmatch b) (rmatch a st))"
| "rmatch (Opt a) st = filter (\<lambda>st'. remaining st' < remaining st) (rmatch a st) @ [st]"
| "rmatch (Star a) st = iterate (rmatch a) (remaining st) st"
| "rmatch (Plus a) st = concat (map (\<lambda>st'. iterate (rmatch a) (remaining st') st') (rmatch a st))"
| "rmatch (Group k a) st = map (capture k st) (rmatch a st)"

text \<open>
  \<open>exec_at r p s\<close>: the match of \<open>r\<close> that starts exactly at the current position, as
  the number of characters it consumes and its captures: the first state the backtracking
  matcher reaches.
\<close>

definition exec_at :: "regex \<Rightarrow> string \<Rightarrow> string \<Rightarrow> (nat \<times> captures) option" where
  "exec_at r p s =
     (case rmatch r (p, s, []) of
        [] \<Rightarrow> None
      | st # _ \<Rightarrow> (case st of (p', s', g) \<Rightarrow> Some (length s - length s', g)))"

text \<open>Replacement templates: literal text and \<open>$n\<close> references.\<close>

datatype titem = TLit string | TRef nat

fun expand :: "titem list \<Rightarrow> captures \<Rightarrow> string" where
  "expand [] g = []"
| "expand (TLit w # t) g = w @ expand t g"
| "expand (TRef k # t) g = (case map_of g k of None \<Rightarrow> [] | Some w \<Rightarrow> w) @ expand t g"

text \<open>
  \<open>s.replace(/r/g, t)\<close>: scan left to right; where \<open>r\<close> matches, emit the expanded
  template and resume after the match (one character further on when the match is empty);
  elsewhere copy the character.
\<close>

function replace_from :: "regex \<Rightarrow> titem list \<Rightarrow> string \<Rightarrow> string \<Rightarrow> string" where
  "replace_from r t p s =
     (case exec_at r p s of
        None \<Rightarrow> (case s of [] \<Rightarrow> [] | c # cs \<Rightarrow> c # replace_from r t (c # p) cs)
      | Some (n, g) \<Rightarrow>
          if n = 0 then expand t g @ (case s of [] \<Rightarrow> [] | c # cs \<Rightarrow> c # replace_from r t (c # p) cs)
          else expand t g @ replace_from r t (rev (take n s) @ p) (drop n s))"
  by pat_completeness auto
termination
  by (relation "measure (\<lambda>(r, t, p, s). length s)")
    (auto simp: exec_at_def split: list.splits prod.splits)

declare replace_from.simps [simp del]

definition replace_all :: "regex \<Rightarrow> titem list \<Rightarrow> string \<Rightarrow> string" where
  "replace_all r t s = replace_from r t [] s"

text \<open>
  The positions of the scan. \<open>scan_to r t p s k\<close> follows \<open>replace_from\<close> step by step
  and tells whether the scan arrives at offset \<open>k\<close> of \<open>s\<close>, that is, whether a match is
  tried there: it returns the output produced up to that offset, and \<open>None\<close> when an
  earlier match runs across the offset.
\<close>

function scan_to :: "regex \<Rightarrow> titem list \<Rightarrow> string \<Rightarrow> string \<Rightarrow> nat \<Rightarrow> string option" where
  "scan_to r t p s k =
     (if k = 0 then Some []
      else case exec_at r p s of
        None \<Rightarrow> (case s of [] \<Rightarrow> None | c # cs \<Rightarrow> map_option ((#) c) (scan_to r t (c # p) cs (k - 1)))
      | Some (n, g) \<Rightarrow>
          if n = 0
          then (case s of [] \<Rightarrow> None
                | c # cs \<Rightarrow> map_option (\<lambda>out. expand t g @ c # out) (scan_to r t (c # p) cs (k - 1)))
          else if n \<le> k
          then map_option ((@) (expand t g)) (scan_to r t (rev (take n s) @ p) (drop n s) (k - n))
          else None)"
  by pat_completeness auto
termination
  by (relation "measure (\<lambda>(r, t, p, s, k). k)") auto

declare scan_to.simps [simp del]

section \<open>postProcess\<close>

text \<open>
  The comment stripper \<open>@nodefactory/strip-comments\<close> is an external package: it is a
  parameter \<open>strip\<close> of the model (the section on the comment stripper holds what the
  spec says about it). \<open>typeof bundleString !== 'string'\<close> is the case
  \<open>None\<close>; the thrown \<open>Error\<close> is the \<open>Inl\<close> result.
\<close>

datatype js_error = JsError string string

definition new_Error :: "string \<Rightarrow> js_error" where
  "new_Error msg = JsError ''Error'' msg"

fun message :: "js_error \<Rightarrow> string" where
  "message (JsError nm msg) = msg"

definition empty_bundle_error :: js_error where
  "empty_bundle_error = new_Error ''Bundled code is empty after postprocessing.''"

record options =
  stripComments :: bool

text \<open>\<open>/\.import\(/g\<close> to \<open>["import"](\<close>, the quotes written \<open>CHR 0x22\<close>\<close>

definition re_import :: regex where
  "re_import = Str ''.import(''"

definition rule_import :: "string \<Rightarrow> string" where
  "rule_import s = replace_all re_import [TLit (''['' @ [CHR 0x22] @ ''import'' @ [CHR 0x22] @ '']('')] s"

text \<open>\<open>/((?:\b[\w\d]*[\]\)]?\.)+eval)(\([^)]*\))/g\<close> to \<open>(1, $1)$2\<close>\<close>

definition re_item_tail :: regex where
  "re_item_tail = Cat (Opt (Class [CChar (CHR '']''), CChar (CHR '')'')])) (Str ''.'')"

definition re_chain_item :: regex where
  "re_chain_item = Cat WordB (Cat (Star (Class [CWord, CDigit])) re_item_tail)"

definition re_args :: regex where
  "re_args = Cat (Str ''('') (Cat (Star (NClass [CChar (CHR '')'')])) (Str '')''))"

definition re_member_eval :: regex where
  "re_member_eval = Cat (Group 1 (Cat (Plus re_chain_item) (Str ''eval''))) (Group 2 re_args)"

definition rule_member_eval :: "string \<Rightarrow> string" where
  "rule_member_eval s = replace_all re_member_eval [TLit ''(1, '', TRef 1, TLit '')'', TRef 2] s"

text \<open>\<open>/(\b)(eval)(\([^)]*\))/g\<close> to \<open>$1(1, $2)$3\<close>\<close>

definition re_eval :: regex where
  "re_eval = Cat (Group 1 WordB) (Cat (Group 2 (Str ''eval'')) (Group 3 re_args))"

definition rule_eval :: "string \<Rightarrow> string" where
  "rule_eval s = replace_all re_eval [TRef 1, TLit ''(1, '', TRef 2, TLit '')'', TRef 3] s"

text \<open>\<open>/<!--/g\<close> to \<open>< !--\<close>, then \<open>/-->/g\<close> to \<open>-- >\<close>\<close>

definition rule_html_open :: "string \<Rightarrow> string" where
  "rule_html_open s = replace_all (Str ''<!--'') [TLit ''< !--''] s"

definition rule_html_close :: "string \<Rightarrow> string" where
  "rule_html_close s = replace_all (Str ''-->'') [TLit ''-- >''] s"

definition rule_html :: "string \<Rightarrow> string" where
  "rule_html s = rule_html_close (rule_html_open s)"

text \<open>\<open>/^\(function \(Buffer\)\{$/gm\<close> to \<open>(function (){\<close>\<close>

definition re_buffer :: regex where
  "re_buffer = Cat Bol (Cat (Str ''(function (Buffer){'') Eol)"

definition rule_buffer :: "string \<Rightarrow> string" where
  "rule_buffer s = replace_all re_buffer [TLit ''(function (){''] s"

text \<open>The five substitutions between comment stripping and the length check, in order.\<close>

definition substitute :: "string \<Rightarrow> string" where
  "substitute s = rule_buffer (rule_html (rule_eval (rule_member_eval (rule_import s))))"

text \<open>Wrapping the bundle contents in an anonymous function.\<close>

definition wrap :: "string \<Rightarrow> string" where
  "wrap s =
     (let s1 = (if endsWith s '';'' then slice s 0 (-1) else s)
      in if startsWith s1 ''('' \<and> endsWith s1 '')'' then ''() => '' @ s1
         else ''() => (\<newline>'' @ s1 @ ''\<newline>)'')"

text \<open>The patches after wrapping.\<close>

definition patch_regenerator :: "string \<Rightarrow> string" where
  "patch_regenerator s =
     (if indexOf s ''regeneratorRuntime'' \<noteq> -1 then ''var regeneratorRuntime;\<newline>'' @ s else s)"

text \<open>\<open>/self/g\<close> to \<open>window\<close>\<close>

definition patch_self :: "string \<Rightarrow> string" where
  "patch_self s = replace_all (Str ''self'') [TLit ''window''] s"

text \<open>\<open>/stdlib./g\<close> to the empty string; the dot of the pattern is not escaped.\<close>

definition re_stdlib :: regex where
  "re_stdlib = Cat (Str ''stdlib'') Dot"

definition patch_stdlib :: "string \<Rightarrow> string" where
  "patch_stdlib s = replace_all re_stdlib [TLit []] s"

text \<open>The string pattern \<open>"setImmediate(() => resultCb(result))"\<close> to \<open>resultCb(result)\<close>\<close>

definition patch_setImmediate :: "string \<Rightarrow> string" where
  "patch_setImmediate s = replace_first ''setImmediate(() => resultCb(result))'' ''resultCb(result)'' s"

definition patch :: "string \<Rightarrow> string" where
  "patch s = patch_setImmediate (patch_stdlib (patch_self (patch_regenerator s)))"

definition postProcess :: "(string \<Rightarrow> string) \<Rightarrow> string option \<Rightarrow> options \<Rightarrow> js_error + string option" where
  "postProcess strip bundleString opts =
     (case bundleString of
        None \<Rightarrow> Inr None
      | Some s0 \<Rightarrow>
          let s1 = trim s0;
              s2 = (if stripComments opts then strip s1 else s1);
              s3 = substitute s2
          in if length s3 = 0 then Inl empty_bundle_error
             else Inr (Some (patch (wrap s3))))"

section \<open>bundle\<close>

text \<open>
  The function \<open>bundle\<close> of the program is \<open>bundle_fn\<close> here. Its effects are made explicit in a \<open>world\<close>: the files, the calls of
  \<open>logError\<close> (of \<open>./utils\<close>, recorded with their two arguments), the lines written by
  \<open>console.log\<close>, and the exit code once \<open>process.exit\<close> has been called. An argument
  that a call leaves out is \<open>Undefined\<close>. The bundle producer \<open>browserify\<close> is a
  parameter: it hands its callback an error or the bundle text.
\<close>

datatype js_value = Undefined | JString string | JError js_error

fun to_string :: "js_value \<Rightarrow> string" where
  "to_string Undefined = ''undefined''"
| "to_string (JString s) = s"
| "to_string (JError (JsError nm msg)) =
     (if nm = [] then msg else if msg = [] then nm else nm @ '': '' @ msg)"

fun truthy :: "js_value \<Rightarrow> bool" where
  "truthy Undefined = False"
| "truthy (JString s) = (s \<noteq> [])"
| "truthy (JError e) = True"

record world =
  files :: "string \<Rightarrow> string option"
  logged :: "(string \<times> js_value) list"
  printed :: "string list"
  exit_code :: "int option"

record argv = options +
  sourceMaps :: bool

definition logError :: "string \<Rightarrow> js_value \<Rightarrow> world \<Rightarrow> world" where
  "logError msg err w = w\<lparr>logged := logged w @ [(msg, err)]\<rparr>"

text \<open>\<open>fs.unlinkSync\<close> inside \<open>try\<close>/\<open>catch\<close>: a missing file is no error here.\<close>

definition unlinkSync :: "string \<Rightarrow> world \<Rightarrow> world" where
  "unlinkSync path w = w\<lparr>files := (files w)(path := None)\<rparr>"

definition writeError :: "bool \<Rightarrow> string \<Rightarrow> js_value \<Rightarrow> js_value \<Rightarrow> js_value \<Rightarrow> world \<Rightarrow> world" where
  "writeError isWatching prefix msg err destFilePath w =
     (let prefix1 = (if \<not> endsWith prefix '' '' then prefix @ '' '' else prefix);
          w1 = logError (prefix1 @ to_string msg) err w;
          w2 = (if truthy destFilePath then unlinkSync (to_string destFilePath) w1 else w1)
      in if \<not> isWatching then w2\<lparr>exit_code := Some 1\<rparr> else w2)"

text \<open>\<open>fs.createWriteStream(dest)\<close> opens the file for writing: it exists and is empty.\<close>

definition createBundleStream :: "string \<Rightarrow> world \<Rightarrow> world" where
  "createBundleStream dest w = w\<lparr>files := (files w)(dest \<mapsto> [])\<rparr>"

text \<open>\<open>stream.end(chunk)\<close>: the chunk, unless it is null, becomes the content of the file.\<close>

definition stream_end :: "string \<Rightarrow> string option \<Rightarrow> world \<Rightarrow> world" where
  "stream_end dest chunk w =
     (case chunk of None \<Rightarrow> w | Some text \<Rightarrow> w\<lparr>files := (files w)(dest \<mapsto> text)\<rparr>)"

definition console_log :: "string \<Rightarrow> world \<Rightarrow> world" where
  "console_log line w = w\<lparr>printed := printed w @ [line]\<rparr>"

text \<open>
  \<open>closeBundleStream\<close> is an \<open>async\<close> function: an exception of \<open>postProcess\<close>
  rejects its promise (\<open>Inl\<close>). The stream is known by the path of its file.
\<close>

definition closeBundleStream ::
  "(string \<Rightarrow> string) \<Rightarrow> string \<Rightarrow> string option \<Rightarrow> options \<Rightarrow> world \<Rightarrow> js_error + world" where
  "closeBundleStream strip dest bundleString opts w =
     (case postProcess strip bundleString opts of
        Inl e \<Rightarrow> Inl e
      | Inr chunk \<Rightarrow> Inr (stream_end dest chunk w))"

text \<open>
  The callback given to \<open>.bundle\<close>. The result is the world and whether the promise of
  \<open>bundle\<close> has been resolved. After \<open>process.exit\<close> nothing more runs. A rejected
  promise of \<open>closeBundleStream\<close> reaches the \<open>catch\<close> handler.
\<close>

definition bundle_callback ::
  "(string \<Rightarrow> string) \<Rightarrow> bool \<Rightarrow> string \<Rightarrow> string \<Rightarrow> argv \<Rightarrow> js_error option \<Rightarrow> string option
     \<Rightarrow> world \<Rightarrow> world \<times> bool" where
  "bundle_callback strip isWatching src dest av err bundle_text w =
     (let w1 = (case err of
                  None \<Rightarrow> w
                | Some e \<Rightarrow> writeError isWatching ''Build error:'' (JError e) Undefined Undefined w)
      in if exit_code w1 \<noteq> None then (w1, False)
         else (case closeBundleStream strip dest bundle_text \<lparr>stripComments = stripComments av\<rparr> w1 of
                 Inl e \<Rightarrow>
                   (writeError isWatching ''Write error:'' (JString (message e)) (JError e) (JString dest) w1,
                    False)
               | Inr w2 \<Rightarrow>
                   let w3 = (if bundle_text \<noteq> None
                             then console_log (''Build success: '' @ [CHR 0x27] @ src @ [CHR 0x27]
                                    @ '' bundled as '' @ [CHR 0x27] @ dest @ [CHR 0x27] @ ''!'') w2
                             else w2)
                   in (w3, True)))"

definition bundle_fn ::
  "(string \<Rightarrow> string) \<Rightarrow> bool \<Rightarrow> (string \<Rightarrow> bool \<Rightarrow> js_error option \<times> string option)
     \<Rightarrow> string \<Rightarrow> string \<Rightarrow> argv \<Rightarrow> world \<Rightarrow> world \<times> bool" where
  "bundle_fn strip isWatching browserify src dest av w =
     (let w0 = createBundleStream dest w
      in case browserify src (sourceMaps av) of
           (err, bundle_text) \<Rightarrow> bundle_callback strip isWatching src dest av err bundle_text w0)"

section \<open>The comment stripper\<close>






section \<open>Texts the properties speak about\<close>

text \<open>
  A word is a non-empty run of word characters; \<open>chain\<close> joins words with dots, as in
  \<open>a.b.c\<close>.
\<close>

definition is_word :: "string \<Rightarrow> bool" where
  "is_word w = (w \<noteq> [] \<and> list_all is_word_char w)"

fun chain :: "string list \<Rightarrow> string" where
  "chain [] = []"
| "chain [w] = w"
| "chain (w # v # ws) = w @ ''.'' @ chain (v # ws)"

section \<open>Properties\<close>

subsection \<open>String operations\<close>

lemma startsWith_single: "startsWith s [c] = (s \<noteq> [] \<and> hd s = c)"
  by (cases s) (auto simp: startsWith_def)

lemma endsWith_single: "endsWith s [c] = (s \<noteq> [] \<and> last s = c)"
proof (cases s rule: rev_cases)
  case Nil
  then show ?thesis by (simp add: endsWith_def)
next
  case (snoc ys y)
  then show ?thesis by (auto simp: endsWith_def)
qed

lemma slice_drop_last: "slice s 0 (-1) = butlast s"
  by (cases s rule: rev_cases) (auto simp: slice_def Let_def)

lemma substitute_Nil: "substitute [] = []"
  by code_simp

lemma trim_Nil: "trim [] = []"
  by (simp add: trim_def)

subsection \<open>The fuel of the matcher\<close>

text \<open>
  Iteration never stops for lack of fuel: more fuel than the length of the remaining text
  gives the same result.
\<close>

lemma iterate_fuel: "remaining st \<le> n \<Longrightarrow> iterate f n st = iterate f (remaining st) st"
proof (induction n arbitrary: st rule: less_induct)
  case (less n)
  show ?case
  proof (cases "remaining st")
    case 0
    have "map (\<lambda>st'. if remaining st' < remaining st then iterate f m st' else []) (f st)
            = map (\<lambda>st'. []) (f st)" for m
      using 0 by simp
    then have "iterate f (Suc m) st = [st]" for m by simp
    with 0 show ?thesis by (cases n) simp_all
  next
    case (Suc k)
    with less.prems obtain m where n: "n = Suc m" and km: "k \<le> m" by (cases n) auto
    have "(if remaining st' < remaining st then iterate f m st' else [])
            = (if remaining st' < remaining st then iterate f k st' else [])" for st'
    proof (cases "remaining st' < remaining st")
      case True
      with Suc have r: "remaining st' \<le> k" by simp
      with km n have "iterate f m st' = iterate f (remaining st') st'"
        using less.IH [of m st'] by simp
      moreover have "iterate f k st' = iterate f (remaining st') st'"
        using less.IH [of k st'] r km n by simp
      ultimately show ?thesis by simp
    next
      case False
      then show ?thesis by simp
    qed
    with n Suc show ?thesis by simp
  qed
qed

subsection \<open>Replacing a literal pattern\<close>

lemma startsWith_Nil [simp]: "startsWith s [] = True"
  by (simp add: startsWith_def)

lemma startsWith_Nil_left [simp]: "startsWith [] (y # w) = False"
  by (simp add: startsWith_def)

lemma startsWith_Cons [simp]: "startsWith (x # t) (y # w) = (x = y \<and> startsWith t w)"
  by (simp add: startsWith_def)

lemma startsWith_append [simp]: "startsWith (w @ t) w"
  by (simp add: startsWith_def)

lemma startsWith_iff: "startsWith s w = (\<exists>t. s = w @ t)"
proof
  assume "startsWith s w"
  then have "s = w @ drop (length w) s"
    by (metis append_take_drop_id startsWith_def)
  then show "\<exists>t. s = w @ t" ..
next
  assume "\<exists>t. s = w @ t"
  then show "startsWith s w" by auto
qed

lemma exec_at_Str:
  "exec_at (Str w) p s = (if startsWith s w then Some (length w, []) else None)"
proof (cases "startsWith s w")
  case True
  then obtain t where "s = w @ t" by (auto simp: startsWith_iff)
  then show ?thesis by (simp add: exec_at_def)
next
  case False
  then show ?thesis by (simp add: exec_at_def)
qed

lemma replace_from_Str:
  assumes "w \<noteq> []"
  shows "replace_from (Str w) [TLit u] p s =
     (if startsWith s w then u @ replace_from (Str w) [TLit u] (rev w @ p) (drop (length w) s)
      else (case s of [] \<Rightarrow> [] | c # cs \<Rightarrow> c # replace_from (Str w) [TLit u] (c # p) cs))"
proof (cases "startsWith s w")
  case True
  then obtain t where "s = w @ t" by (auto simp: startsWith_iff)
  with assms show ?thesis
    by (subst replace_from.simps) (simp add: exec_at_Str)
next
  case False
  then show ?thesis
    by (subst replace_from.simps) (simp add: exec_at_Str)
qed

lemma replace_from_Str_context:
  assumes "w \<noteq> []"
  shows "replace_from (Str w) [TLit u] p s = replace_from (Str w) [TLit u] q s"
proof (induction s arbitrary: p q rule: length_induct)
  case (1 s)
  show ?case
  proof (cases "startsWith s w")
    case True
    then obtain t where t: "s = w @ t" by (auto simp: startsWith_iff)
    with assms have "length t < length s" by simp
    with 1 have "replace_from (Str w) [TLit u] (rev w @ p) t = replace_from (Str w) [TLit u] (rev w @ q) t"
      by blast
    with True t assms show ?thesis
      by (simp add: replace_from_Str [OF assms, of u p] replace_from_Str [OF assms, of u q])
  next
    case False
    show ?thesis
    proof (cases s)
      case Nil
      with False assms show ?thesis
        by (simp add: replace_from_Str [OF assms, of u p] replace_from_Str [OF assms, of u q])
    next
      case (Cons c cs)
      then have "length cs < length s" by simp
      with 1 have "replace_from (Str w) [TLit u] (c # p) cs = replace_from (Str w) [TLit u] (c # q) cs"
        by blast
      with False Cons show ?thesis
        by (simp add: replace_from_Str [OF assms, of u p] replace_from_Str [OF assms, of u q])
    qed
  qed
qed

lemma replace_all_Str_Nil: "w \<noteq> [] \<Longrightarrow> replace_all (Str w) [TLit u] [] = []"
  using replace_from_Str [of w u "[]" "[]"] by (cases w) (simp_all add: replace_all_def)

lemma replace_all_Str_match:
  "w \<noteq> [] \<Longrightarrow> replace_all (Str w) [TLit u] (w @ t) = u @ replace_all (Str w) [TLit u] t"
  using replace_from_Str_context [of w u "rev w" t "[]"] replace_from_Str [of w u "[]" "w @ t"]
  by (simp add: replace_all_def)

lemma replace_all_Str_skip:
  "w \<noteq> [] \<Longrightarrow> \<not> startsWith (c # t) w \<Longrightarrow>
   replace_all (Str w) [TLit u] (c # t) = c # replace_all (Str w) [TLit u] t"
  using replace_from_Str_context [of w u "[c]" t "[]"] replace_from_Str [of w u "[]" "c # t"]
  by (simp add: replace_all_def)

lemma literal_induct [case_names nonempty Nil match skip]:
  assumes "w \<noteq> []" and "P []" and "\<And>t. P t \<Longrightarrow> P (w @ t)"
    and "\<And>x t. \<not> startsWith (x # t) w \<Longrightarrow> P t \<Longrightarrow> P (x # t)"
  shows "P s"
proof (induction s rule: length_induct)
  case (1 s)
  show ?case
  proof (cases "startsWith s w")
    case True
    then obtain t where t: "s = w @ t" by (auto simp: startsWith_iff)
    with assms(1) have "length t < length s" by simp
    with 1 have "P t" by blast
    with t assms(3) show ?thesis by simp
  next
    case False
    show ?thesis
    proof (cases s)
      case Nil
      with assms(2) show ?thesis by simp
    next
      case (Cons x t)
      with 1 have "P t" by simp
      with False Cons assms(4) show ?thesis by simp
    qed
  qed
qed

subsection \<open>The \<open>self\<close> patch\<close>

lemma patch_self_Nil: "patch_self [] = []"
  by (simp add: patch_self_def replace_all_Str_Nil)

lemma patch_self_match: "patch_self (''self'' @ t) = ''window'' @ patch_self t"
  unfolding patch_self_def by (rule replace_all_Str_match) simp

lemma patch_self_skip: "\<not> startsWith (c # t) ''self'' \<Longrightarrow> patch_self (c # t) = c # patch_self t"
  unfolding patch_self_def by (rule replace_all_Str_skip) simp_all

lemma not_startsWith_self_append:
  "\<not> startsWith (x # t) ''self'' \<Longrightarrow> \<not> startsWith (x # t @ ''self'' @ b) ''self''"
  apply (cases t; simp)
  subgoal for y t1
    apply (cases t1; simp)
    subgoal for z t2
      by (cases t2; simp)
    done
  done

lemma patch_self_split: "patch_self (a @ ''self'' @ b) = patch_self a @ ''window'' @ patch_self b"
proof (induction a rule: literal_induct [where w = "''self''"])
  case nonempty
  show ?case by simp
next
  case Nil
  show ?case using patch_self_match [of b] by (simp add: patch_self_Nil)
next
  case (match t)
  have "patch_self ((''self'' @ t) @ ''self'' @ b) = ''window'' @ patch_self (t @ ''self'' @ b)"
    using patch_self_match [of "t @ ''self'' @ b"] by simp
  with match show ?case using patch_self_match [of t] by simp
next
  case (skip x t)
  from skip(1) have "\<not> startsWith (x # t @ ''self'' @ b) ''self''"
    by (rule not_startsWith_self_append)
  then have "patch_self (x # t @ ''self'' @ b) = x # patch_self (t @ ''self'' @ b)"
    by (rule patch_self_skip)
  with skip show ?case using patch_self_skip [of x t] by simp
qed

subsection \<open>The two passes of the HTML comment rule\<close>

lemma open_Nil: "rule_html_open [] = []"
  by (simp add: rule_html_open_def replace_all_Str_Nil)

lemma open_match:
  "rule_html_open (CHR ''<'' # CHR ''!'' # CHR ''-'' # CHR ''-'' # t) = ''< !--'' @ rule_html_open t"
  using replace_all_Str_match [of "''<!--''" "''< !--''" t] by (simp add: rule_html_open_def)

lemma open_skip:
  "\<not> startsWith (x # t) ''<!--'' \<Longrightarrow> rule_html_open (x # t) = x # rule_html_open t"
  unfolding rule_html_open_def by (rule replace_all_Str_skip) simp_all

lemma open_other: "x \<noteq> CHR ''<'' \<Longrightarrow> rule_html_open (x # t) = x # rule_html_open t"
  by (rule open_skip) simp

lemma close_Nil: "rule_html_close [] = []"
  by (simp add: rule_html_close_def replace_all_Str_Nil)

lemma close_match:
  "rule_html_close (CHR ''-'' # CHR ''-'' # CHR ''>'' # t) = ''-- >'' @ rule_html_close t"
  using replace_all_Str_match [of "''-->''" "''-- >''" t] by (simp add: rule_html_close_def)

lemma close_skip:
  "\<not> startsWith (x # t) ''-->'' \<Longrightarrow> rule_html_close (x # t) = x # rule_html_close t"
  unfolding rule_html_close_def by (rule replace_all_Str_skip) simp_all

lemma close_other: "x \<noteq> CHR ''-'' \<Longrightarrow> rule_html_close (x # t) = x # rule_html_close t"
  by (rule close_skip) simp

text \<open>Both passes keep the first character of the text.\<close>

lemma open_Cons: "\<exists>r. rule_html_open (x # t) = x # r"
proof (cases "startsWith (x # t) ''<!--''")
  case True
  then obtain t' where "x # t = ''<!--'' @ t'" by (auto simp: startsWith_iff)
  then show ?thesis using open_match [of t'] by simp
next
  case False
  then show ?thesis by (simp add: open_skip)
qed

lemma close_Cons: "\<exists>r. rule_html_close (x # t) = x # r"
proof (cases "startsWith (x # t) ''-->''")
  case True
  then obtain t' where "x # t = ''-->'' @ t'" by (auto simp: startsWith_iff)
  then show ?thesis using close_match [of t'] by simp
next
  case False
  then show ?thesis by (simp add: close_skip)
qed

lemma open_hd: "rule_html_open t = x # r \<Longrightarrow> \<exists>t1. t = x # t1"
proof (cases t)
  case Nil
  assume "rule_html_open t = x # r"
  with Nil show ?thesis by (simp add: open_Nil)
next
  case (Cons y t1)
  assume "rule_html_open t = x # r"
  with Cons show ?thesis using open_Cons [of y t1] by auto
qed

lemma close_hd: "rule_html_close t = x # r \<Longrightarrow> \<exists>t1. t = x # t1"
proof (cases t)
  case Nil
  assume "rule_html_close t = x # r"
  with Nil show ?thesis by (simp add: close_Nil)
next
  case (Cons y t1)
  assume "rule_html_close t = x # r"
  with Cons show ?thesis using close_Cons [of y t1] by auto
qed

lemma open_starts_bang:
  assumes "startsWith (rule_html_open t) ''!--''"
  shows "startsWith t ''!--''"
proof -
  from assms obtain r where r: "rule_html_open t = ''!--'' @ r" by (auto simp: startsWith_iff)
  then obtain t1 where t1: "t = CHR ''!'' # t1" using open_hd [of t "CHR ''!''"] by auto
  with r have r1: "rule_html_open t1 = ''--'' @ r" by (simp add: open_other)
  then obtain t2 where t2: "t1 = CHR ''-'' # t2" using open_hd [of t1 "CHR ''-''"] by auto
  with r1 have "rule_html_open t2 = ''-'' @ r" by (simp add: open_other)
  then obtain t3 where "t2 = CHR ''-'' # t3" using open_hd [of t2 "CHR ''-''"] by auto
  with t1 t2 show ?thesis by simp
qed

lemma open_idem: "rule_html_open (rule_html_open t) = rule_html_open t"
proof (induction t rule: literal_induct [where w = "''<!--''"])
  case nonempty
  show ?case by simp
next
  case Nil
  show ?case by (simp add: open_Nil)
next
  case (match t)
  then show ?case by (simp add: open_match open_skip open_other)
next
  case (skip x t)
  have "\<not> startsWith (x # rule_html_open t) ''<!--''"
  proof
    assume a: "startsWith (x # rule_html_open t) ''<!--''"
    then have "startsWith (rule_html_open t) ''!--''" by simp
    then have "startsWith t ''!--''" by (rule open_starts_bang)
    with a have "startsWith (x # t) ''<!--''" by simp
    with skip(1) show False by simp
  qed
  with skip show ?case by (simp add: open_skip)
qed

lemma close_starts_gt:
  assumes "startsWith (rule_html_close t) ''->''"
  shows "startsWith t ''->''"
proof -
  from assms obtain r where r: "rule_html_close t = ''->'' @ r" by (auto simp: startsWith_iff)
  then obtain t1 where t1: "t = CHR ''-'' # t1" using close_hd [of t "CHR ''-''"] by auto
  have ns: "\<not> startsWith t ''-->''"
  proof
    assume "startsWith t ''-->''"
    then obtain t' where "t = ''-->'' @ t'" by (auto simp: startsWith_iff)
    with r show False using close_match [of t'] by simp
  qed
  with t1 r have "rule_html_close t1 = ''>'' @ r" by (simp add: close_skip)
  then obtain t2 where "t1 = CHR ''>'' # t2" using close_hd [of t1 "CHR ''>''"] by auto
  with t1 show ?thesis by simp
qed

lemma close_idem: "rule_html_close (rule_html_close t) = rule_html_close t"
proof (induction t rule: literal_induct [where w = "''-->''"])
  case nonempty
  show ?case by simp
next
  case Nil
  show ?case by (simp add: close_Nil)
next
  case (match t)
  then show ?case by (simp add: close_match close_skip close_other)
next
  case (skip x t)
  have "\<not> startsWith (x # rule_html_close t) ''-->''"
  proof
    assume a: "startsWith (x # rule_html_close t) ''-->''"
    then have "startsWith (rule_html_close t) ''->''" by simp
    then have "startsWith t ''->''" by (rule close_starts_gt)
    with a have "startsWith (x # t) ''-->''" by simp
    with skip(1) show False by simp
  qed
  with skip show ?case by (simp add: close_skip)
qed

lemma close_starts_bang:
  assumes "startsWith (rule_html_close t) ''!--''"
  shows "startsWith t ''!--''"
proof -
  from assms obtain r where r: "rule_html_close t = ''!--'' @ r" by (auto simp: startsWith_iff)
  then obtain t1 where t1: "t = CHR ''!'' # t1" using close_hd [of t "CHR ''!''"] by auto
  with r have r1: "rule_html_close t1 = ''--'' @ r" by (simp add: close_other)
  then obtain t2 where t2: "t1 = CHR ''-'' # t2" using close_hd [of t1 "CHR ''-''"] by auto
  have "\<exists>t3. t2 = CHR ''-'' # t3"
  proof (cases "startsWith t1 ''-->''")
    case True
    with t2 show ?thesis by (cases t2) simp_all
  next
    case False
    with t2 r1 have "rule_html_close t2 = ''-'' @ r" by (simp add: close_skip)
    then show ?thesis using close_hd [of t2 "CHR ''-''"] by auto
  qed
  with t1 t2 show ?thesis by auto
qed

lemma open_fixed_close:
  "rule_html_open u = u \<Longrightarrow> rule_html_open (rule_html_close u) = rule_html_close u"
proof (induction u rule: literal_induct [where w = "''-->''"])
  case nonempty
  show ?case by simp
next
  case Nil
  show ?case by (simp add: close_Nil open_Nil)
next
  case (match t)
  from match(2) have "rule_html_open t = t" by (simp add: open_other)
  with match(1) show ?case by (simp add: close_match open_other)
next
  case (skip x t)
  have ns: "\<not> startsWith (x # t) ''<!--''"
  proof
    assume "startsWith (x # t) ''<!--''"
    then obtain t' where "x # t = ''<!--'' @ t'" by (auto simp: startsWith_iff)
    with skip(3) show False using open_match [of t'] by simp
  qed
  with skip(3) have "rule_html_open t = t" by (simp add: open_skip)
  with skip(2) have ih: "rule_html_open (rule_html_close t) = rule_html_close t" by simp
  have "\<not> startsWith (x # rule_html_close t) ''<!--''"
  proof
    assume a: "startsWith (x # rule_html_close t) ''<!--''"
    then have "startsWith (rule_html_close t) ''!--''" by simp
    then have "startsWith t ''!--''" by (rule close_starts_bang)
    with a have "startsWith (x # t) ''<!--''" by simp
    with ns show False by simp
  qed
  with ih skip(1) show ?case by (simp add: close_skip open_skip)
qed

subsection \<open>Matching a call of a member \<open>eval\<close>\<close>

lemma not_word_chars [simp]:
  "\<not> is_word_char (CHR ''.'')" "\<not> is_word_char (CHR '']'')" "\<not> is_word_char (CHR '')'')"
  "\<not> is_word_char (CHR ''('')"
  by (simp_all add: is_word_char_def is_digit_def)

lemma word_chars_eval [simp]:
  "is_word_char (CHR ''e'')" "is_word_char (CHR ''v'')" "is_word_char (CHR ''a'')" "is_word_char (CHR ''l'')"
  by (simp_all add: is_word_char_def is_digit_def)

lemma in_class_word [simp]: "in_class [CWord, CDigit] c = is_word_char c"
  by (auto simp: in_class_def is_word_char_def)

lemma in_class_close [simp]: "in_class [CChar (CHR '']''), CChar (CHR '')'')] c = (c = CHR '']'' \<or> c = CHR '')'')"
  by (auto simp: in_class_def)

lemma in_class_paren [simp]: "in_class [CChar (CHR '')'')] c = (c = CHR '')'')"
  by (auto simp: in_class_def)

lemma item_tail_dot: "rmatch re_item_tail (p, CHR ''.'' # s, g) = [(CHR ''.'' # p, s, g)]"
  by (simp add: re_item_tail_def)

lemma item_tail_word: "is_word_char c \<Longrightarrow> rmatch re_item_tail (p, c # s, g) = []"
  by (auto simp: re_item_tail_def)

lemma item_tail_paren: "rmatch re_item_tail (p, CHR ''('' # s, g) = []"
  by (auto simp: re_item_tail_def)

lemma word_run:
  "list_all is_word_char w \<Longrightarrow> length w \<le> n \<Longrightarrow>
   concat (map (rmatch re_item_tail) (iterate (rmatch (Class [CWord, CDigit])) n (p, w @ CHR ''.'' # s, g)))
     = [(CHR ''.'' # rev w @ p, s, g)]"
proof (induction w arbitrary: p n)
  case Nil
  then show ?case by (cases n) (simp_all add: item_tail_dot)
next
  case (Cons c w)
  then obtain m where m: "n = Suc m" by (cases n) auto
  with Cons.prems have "length w \<le> m" and "list_all is_word_char w" and "is_word_char c" by simp_all
  with Cons.IH [of m "c # p"] m show ?case by (simp add: item_tail_word)
qed

lemma word_run_paren:
  "list_all is_word_char w \<Longrightarrow> length w \<le> n \<Longrightarrow>
   concat (map (rmatch re_item_tail) (iterate (rmatch (Class [CWord, CDigit])) n (p, w @ CHR ''('' # s, g)))
     = []"
proof (induction w arbitrary: p n)
  case Nil
  then show ?case by (cases n) (simp_all add: item_tail_paren)
next
  case (Cons c w)
  then obtain m where m: "n = Suc m" by (cases n) auto
  with Cons.prems have "length w \<le> m" and "list_all is_word_char w" and "is_word_char c" by simp_all
  with Cons.IH [of m "c # p"] m show ?case by (simp add: item_tail_word)
qed

lemma chain_item_word:
  assumes "is_word w" and "\<not> word_before p"
  shows "rmatch re_chain_item (p, w @ CHR ''.'' # s, g) = [(CHR ''.'' # rev w @ p, s, g)]"
proof -
  from assms(1) obtain c w' where w: "w = c # w'" and c: "is_word_char c" and all: "list_all is_word_char w"
    by (cases w) (auto simp: is_word_def)
  have "concat (map (rmatch re_item_tail)
          (iterate (rmatch (Class [CWord, CDigit])) (length (w @ CHR ''.'' # s)) (p, w @ CHR ''.'' # s, g)))
        = [(CHR ''.'' # rev w @ p, s, g)]"
    using all by (rule word_run) simp
  with w c assms(2) show ?thesis
    by (simp add: re_chain_item_def)
qed

lemma chain_item_eval: "rmatch re_chain_item (p, ''eval('' @ s, g) = []"
proof -
  have "concat (map (rmatch re_item_tail)
          (iterate (rmatch (Class [CWord, CDigit])) (length (''eval'' @ CHR ''('' # s)) (p, ''eval'' @ CHR ''('' # s, g)))
        = []"
    by (rule word_run_paren) simp_all
  then show ?thesis
    by (simp add: re_chain_item_def)
qed

lemma chain_items:
  assumes "ws \<noteq> []" and "list_all is_word ws" and "\<not> word_before p" and "length ws \<le> n"
  shows "\<exists>L. iterate (rmatch re_chain_item) n (p, chain ws @ ''.eval('' @ s, g)
           = (CHR ''.'' # rev (chain ws) @ p, ''eval('' @ s, g) # L"
  using assms
proof (induction ws arbitrary: p n rule: list_nonempty_induct)
  case (single w)
  then obtain m where m: "n = Suc m" by (cases n) auto
  from single have w: "is_word w" by simp
  have 1: "rmatch re_chain_item (p, w @ CHR ''.'' # ''eval('' @ s, g) = [(CHR ''.'' # rev w @ p, ''eval('' @ s, g)]"
    using w single(2) by (rule chain_item_word)
  have 2: "iterate (rmatch re_chain_item) m (CHR ''.'' # rev w @ p, ''eval('' @ s, g)
             = [(CHR ''.'' # rev w @ p, ''eval('' @ s, g)]"
    using chain_item_eval [of "CHR ''.'' # rev w @ p" s g] by (cases m) simp_all
  from 1 2 m show ?case by simp
next
  case (cons w ws)
  then obtain m where m: "n = Suc m" by (cases n) auto
  from cons.prems have w: "is_word w" and all: "list_all is_word ws" and len: "length ws \<le> m"
    using m by simp_all
  obtain v vs where ws: "ws = v # vs" using cons.hyps by (cases ws) auto
  have 1: "rmatch re_chain_item (p, w @ CHR ''.'' # chain ws @ ''.eval('' @ s, g)
             = [(CHR ''.'' # rev w @ p, chain ws @ ''.eval('' @ s, g)]"
    using w cons.prems(2) by (rule chain_item_word)
  have "\<not> word_before (CHR ''.'' # rev w @ p)" by simp
  with cons.IH [OF all _ len, of "CHR ''.'' # rev w @ p"]
  obtain L where L: "iterate (rmatch re_chain_item) m (CHR ''.'' # rev w @ p, chain ws @ ''.eval('' @ s, g)
             = (CHR ''.'' # rev (chain ws) @ CHR ''.'' # rev w @ p, ''eval('' @ s, g) # L"
    by blast
  from 1 L m ws show ?case by simp
qed

lemma plus_chain_items:
  assumes "ws \<noteq> []" and "list_all is_word ws" and "\<not> word_before p"
  shows "\<exists>L. rmatch (Plus re_chain_item) (p, chain ws @ ''.eval('' @ s, g)
           = (CHR ''.'' # rev (chain ws) @ p, ''eval('' @ s, g) # L"
proof -
  obtain w vs where ws: "ws = w # vs" using assms(1) by (cases ws) auto
  with assms(2) have w: "is_word w" and vs: "list_all is_word vs" by simp_all
  show ?thesis
  proof (cases vs)
    case Nil
    have 1: "rmatch re_chain_item (p, w @ CHR ''.'' # ''eval('' @ s, g) = [(CHR ''.'' # rev w @ p, ''eval('' @ s, g)]"
      using w assms(3) by (rule chain_item_word)
    have 2: "iterate (rmatch re_chain_item) k (CHR ''.'' # rev w @ p, ''eval('' @ s, g)
             = [(CHR ''.'' # rev w @ p, ''eval('' @ s, g)]" for k
      using chain_item_eval [of "CHR ''.'' # rev w @ p" s g] by (cases k) simp_all
    from 1 2 ws Nil show ?thesis by (simp del: iterate.simps)
  next
    case (Cons v vs')
    have 1: "rmatch re_chain_item (p, w @ CHR ''.'' # chain vs @ ''.eval('' @ s, g)
             = [(CHR ''.'' # rev w @ p, chain vs @ ''.eval('' @ s, g)]"
      using w assms(3) by (rule chain_item_word)
    have "length vs \<le> length (chain vs @ ''.eval('' @ s)"
      using vs by (induction vs rule: chain.induct) (auto simp: is_word_def)
    moreover have "vs \<noteq> []" using Cons by simp
    moreover have "\<not> word_before (CHR ''.'' # rev w @ p)" by simp
    ultimately obtain L where
      "iterate (rmatch re_chain_item) (length (chain vs @ ''.eval('' @ s))
         (CHR ''.'' # rev w @ p, chain vs @ ''.eval('' @ s, g)
       = (CHR ''.'' # rev (chain vs) @ CHR ''.'' # rev w @ p, ''eval('' @ s, g) # L"
      using chain_items [OF _ vs, of "CHR ''.'' # rev w @ p" "length (chain vs @ ''.eval('' @ s)" s g]
      by blast
    with 1 ws Cons show ?thesis by simp
  qed
qed

lemma class_run:
  assumes step: "\<And>p c s. f (p, c # s, g) = (if P c then [(c # p, s, g)] else [])"
  shows "list_all P a \<Longrightarrow> \<not> P x \<Longrightarrow> length a \<le> n \<Longrightarrow>
     \<exists>L. iterate f n (p, a @ x # r, g) = (rev a @ p, x # r, g) # L"
proof (induction a arbitrary: p n)
  case Nil
  then show ?case by (cases n) (simp_all add: step)
next
  case (Cons c a)
  then obtain m where m: "n = Suc m" by (cases n) auto
  with Cons.prems have "list_all P a" and "length a \<le> m" and c: "P c" by auto
  with Cons.IH [of m "c # p"] Cons.prems(2) obtain L where
    "iterate f m (c # p, a @ x # r, g) = (rev a @ c # p, x # r, g) # L" by blast
  with m c show ?case by (simp add: step)
qed

lemma args_run:
  assumes "CHR '')'' \<notin> set a" and "length a \<le> n"
  shows "\<exists>L. iterate (rmatch (NClass [CChar (CHR '')'')])) n (p, a @ CHR '')'' # r, g)
     = (rev a @ p, CHR '')'' # r, g) # L"
proof (rule class_run [where P = "\<lambda>c. c \<noteq> CHR '')''"])
  show "rmatch (NClass [CChar (CHR '')'')]) (p, c # s, g) = (if c \<noteq> CHR '')'' then [(c # p, s, g)] else [])"
    for p c s by simp
  show "list_all (\<lambda>c. c \<noteq> CHR '')'') a" using assms(1) by (induction a) auto
  show "\<not> CHR '')'' \<noteq> CHR '')''" by simp
  show "length a \<le> n" by (rule assms(2))
qed

lemma args_match:
  assumes "CHR '')'' \<notin> set a"
  shows "\<exists>L. rmatch re_args (p, ''('' @ a @ '')'' @ r, g) = (CHR '')'' # rev a @ CHR ''('' # p, r, g) # L"
proof -
  obtain L where
    "iterate (rmatch (NClass [CChar (CHR '')'')])) (length (a @ CHR '')'' # r)) (CHR ''('' # p, a @ CHR '')'' # r, g)
       = (rev a @ CHR ''('' # p, CHR '')'' # r, g) # L"
    using args_run [OF assms, of "length (a @ CHR '')'' # r)" "CHR ''('' # p" r g] by auto
  then show ?thesis by (simp add: re_args_def)
qed

lemma member_eval_exec:
  assumes "ws \<noteq> []" and "list_all is_word ws" and "\<not> word_before p" and "CHR '')'' \<notin> set a"
  shows "exec_at re_member_eval p (chain ws @ ''.eval('' @ a @ '')'' @ r)
       = Some (length (chain ws @ ''.eval('' @ a @ '')''), [(2, ''('' @ a @ '')''), (1, chain ws @ ''.eval'')])"
proof -
  obtain L1 where 1: "rmatch (Plus re_chain_item) (p, chain ws @ ''.eval('' @ a @ '')'' @ r, [])
           = (CHR ''.'' # rev (chain ws) @ p, ''eval('' @ a @ '')'' @ r, []) # L1"
    using plus_chain_items [OF assms(1-3), of "a @ '')'' @ r" "[]"] by auto
  obtain L2 where 2: "rmatch re_args (rev ''eval'' @ CHR ''.'' # rev (chain ws) @ p, ''('' @ a @ '')'' @ r,
              [(1, chain ws @ ''.eval'')])
           = (CHR '')'' # rev a @ CHR ''('' # rev ''eval'' @ CHR ''.'' # rev (chain ws) @ p, r, [(1, chain ws @ ''.eval'')]) # L2"
    using args_match [OF assms(4)] by blast
  from 1 2 show ?thesis
    by (simp add: exec_at_def re_member_eval_def)
qed

lemma member_eval_exec_Nil: "exec_at re_member_eval p [] = None"
  by (simp add: exec_at_def re_member_eval_def re_chain_item_def re_item_tail_def)

lemma member_eval_replace:
  assumes "ws \<noteq> []" and "list_all is_word ws" and "\<not> word_before p" and "CHR '')'' \<notin> set a"
  shows "replace_from re_member_eval [TLit ''(1, '', TRef 1, TLit '')'', TRef 2] p
           ((chain ws @ ''.eval('' @ a @ '')'') @ r)
       = ''(1, '' @ chain ws @ ''.eval)('' @ a @ '')''
           @ replace_from re_member_eval [TLit ''(1, '', TRef 1, TLit '')'', TRef 2]
               (rev (chain ws @ ''.eval('' @ a @ '')'') @ p) r"
proof -
  let ?m = "chain ws @ ''.eval('' @ a @ '')''"
  let ?g = "[(2, ''('' @ a @ '')''), (1, chain ws @ ''.eval'')]"
  let ?t = "[TLit ''(1, '', TRef 1, TLit '')'', TRef 2]"
  have ex: "exec_at re_member_eval p (?m @ r) = Some (length ?m, ?g)"
    using member_eval_exec [OF assms, of r] by simp
  have nz: "(length ?m = 0) = False" by simp
  have "replace_from re_member_eval ?t p (?m @ r)
      = expand ?t ?g @ replace_from re_member_eval ?t (rev (take (length ?m) (?m @ r)) @ p) (drop (length ?m) (?m @ r))"
    by (subst replace_from.simps) (simp only: ex option.case prod.case nz if_False)
  also have "expand ?t ?g = ''(1, '' @ chain ws @ ''.eval)('' @ a @ '')''" by simp
  also have "take (length ?m) (?m @ r) = ?m" by (rule append_eq_conv_conj [THEN iffD1, THEN conjunct1, symmetric]) (rule refl)
  also have "drop (length ?m) (?m @ r) = r" by (rule append_eq_conv_conj [THEN iffD1, THEN conjunct2, symmetric]) (rule refl)
  finally show ?thesis by (simp only: append_assoc)
qed

subsection \<open>Matching a call of bare \<open>eval\<close>\<close>



subsection \<open>Where the scan arrives\<close>

lemma scan_to_replace:
  "scan_to r t p s k = Some out \<Longrightarrow>
   k \<le> length s \<and> replace_from r t p s = out @ replace_from r t (rev (take k s) @ p) (drop k s)"
proof (induction r t p s k arbitrary: out rule: scan_to.induct)
  case (1 r t p s k)
  note eq = "1.prems" [unfolded scan_to.simps [of r t p s k]]
  show ?case
  proof (cases "k = 0")
    case True
    with eq show ?thesis by simp
  next
    case k: False
    show ?thesis
    proof (cases "exec_at r p s")
      case None
      show ?thesis
      proof (cases s)
        case Nil
        with None k eq show ?thesis by simp
      next
        case (Cons c cs)
        with None k eq obtain o1 where o1: "scan_to r t (c # p) cs (k - 1) = Some o1" and out: "out = c # o1"
          by auto
        from "1.IH"(1) [OF k None Cons o1]
        have "k - 1 \<le> length cs" and
          "replace_from r t (c # p) cs = o1 @ replace_from r t (rev (take (k - 1) cs) @ c # p) (drop (k - 1) cs)"
          by simp_all
        moreover have "replace_from r t p s = c # replace_from r t (c # p) cs"
          using None Cons by (subst replace_from.simps) simp
        moreover from k obtain j where "k = Suc j" by (cases k) auto
        ultimately show ?thesis using Cons out by simp
      qed
    next
      case (Some x)
      obtain n g where x: "x = (n, g)" by (cases x)
      show ?thesis
      proof (cases "n = 0")
        case True
        show ?thesis
        proof (cases s)
          case Nil
          with Some x True k eq show ?thesis by simp
        next
          case (Cons c cs)
          with Some x True k eq obtain o1 where o1: "scan_to r t (c # p) cs (k - 1) = Some o1"
            and out: "out = expand t g @ c # o1"
            by auto
          from "1.IH"(2) [OF k Some x [symmetric] True Cons o1]
          have "k - 1 \<le> length cs" and
            "replace_from r t (c # p) cs = o1 @ replace_from r t (rev (take (k - 1) cs) @ c # p) (drop (k - 1) cs)"
            by simp_all
          moreover have "replace_from r t p s = expand t g @ c # replace_from r t (c # p) cs"
            using Some x True Cons by (subst replace_from.simps) simp
          moreover from k obtain j where "k = Suc j" by (cases k) auto
          ultimately show ?thesis using Cons out by simp
        qed
      next
        case n: False
        with Some x k eq obtain o1 where le: "n \<le> k"
          and o1: "scan_to r t (rev (take n s) @ p) (drop n s) (k - n) = Some o1"
          and out: "out = expand t g @ o1"
          by (auto split: if_splits)
        from "1.IH"(3) [OF k Some x [symmetric] n le o1]
        have a: "k - n \<le> length (drop n s)" and
          b: "replace_from r t (rev (take n s) @ p) (drop n s)
            = o1 @ replace_from r t (rev (take (k - n) (drop n s)) @ rev (take n s) @ p) (drop (k - n) (drop n s))"
          by simp_all
        have c: "replace_from r t p s = expand t g @ replace_from r t (rev (take n s) @ p) (drop n s)"
          using Some x n by (subst replace_from.simps) simp
        have d: "take (k - n) (drop n s) = drop n (take k s)" using le by (simp add: drop_take)
        have e: "rev (drop n (take k s)) @ rev (take n s) @ p = rev (take k s) @ p"
        proof -
          have "take n (take k s) = take n s" using le by (simp add: min_def)
          moreover have "take n (take k s) @ drop n (take k s) = take k s" by (rule append_take_drop_id)
          ultimately have "take n s @ drop n (take k s) = take k s" by simp
          then have "rev (take n s @ drop n (take k s)) @ p = rev (take k s) @ p" by simp
          then show ?thesis by (simp only: rev_append append_assoc)
        qed
        have "n \<le> length s"
          using Some x by (auto simp: exec_at_def split: list.splits prod.splits)
        with a le have "k \<le> length s" by simp
        moreover from b c d e out le have
          "replace_from r t p s = out @ replace_from r t (rev (take k s) @ p) (drop k s)"
          by simp
        ultimately show ?thesis by simp
      qed
    qed
  qed
qed

text \<open>The matcher only moves forward through the text.\<close>

lemma step_if_advances:
  "(p', s', g') \<in> set (step_if P (p, s, g)) \<Longrightarrow> \<exists>u. p' = rev u @ p \<and> s = u @ s'"
  by (cases s) (auto split: if_splits)

lemma iterate_advances:
  assumes f: "\<And>p s g p' s' g'. (p', s', g') \<in> set (f (p, s, g)) \<Longrightarrow> \<exists>u. p' = rev u @ p \<and> s = u @ s'"
  shows "(p', s', g') \<in> set (iterate f n (p, s, g)) \<Longrightarrow> \<exists>u. p' = rev u @ p \<and> s = u @ s'"
proof (induction n arbitrary: p s g)
  case 0
  then show ?case by simp
next
  case (Suc n)
  from Suc.prems consider "(p', s', g') = (p, s, g)"
    | p1 s1 g1 where "(p1, s1, g1) \<in> set (f (p, s, g))" and "(p', s', g') \<in> set (iterate f n (p1, s1, g1))"
    by (auto split: if_splits)
  then show ?case
  proof cases
    case 1
    then show ?thesis by simp
  next
    case 2
    from f [OF 2(1)] obtain u1 where u1: "p1 = rev u1 @ p" "s = u1 @ s1" by blast
    from Suc.IH [OF 2(2)] obtain u2 where u2: "p' = rev u2 @ p1" "s1 = u2 @ s'" by blast
    from u1 u2 have "p' = rev (u1 @ u2) @ p \<and> s = (u1 @ u2) @ s'" by simp
    then show ?thesis by blast
  qed
qed

lemma rmatch_advances:
  "(p', s', g') \<in> set (rmatch r (p, s, g)) \<Longrightarrow> \<exists>u. p' = rev u @ p \<and> s = u @ s'"
proof (induction r arbitrary: p s g p' s' g')
  case (Str w)
  then show ?case by (auto simp: startsWith_iff split: if_splits)
next
  case Dot
  then show ?case using step_if_advances by simp
next
  case (Class cs)
  then show ?case using step_if_advances by simp
next
  case (NClass cs)
  then show ?case using step_if_advances by simp
next
  case WordB
  then show ?case by (auto split: if_splits)
next
  case Bol
  then show ?case by (auto split: if_splits)
next
  case Eol
  then show ?case by (auto split: if_splits)
next
  case (Cat a b)
  from Cat.prems obtain p1 s1 g1 where 1: "(p1, s1, g1) \<in> set (rmatch a (p, s, g))"
    and 2: "(p', s', g') \<in> set (rmatch b (p1, s1, g1))" by auto
  from Cat.IH(1) [OF 1] obtain u1 where u1: "p1 = rev u1 @ p" "s = u1 @ s1" by blast
  from Cat.IH(2) [OF 2] obtain u2 where u2: "p' = rev u2 @ p1" "s1 = u2 @ s'" by blast
  from u1 u2 have "p' = rev (u1 @ u2) @ p \<and> s = (u1 @ u2) @ s'" by simp
  then show ?case by blast
next
  case (Opt a)
  from Opt.prems have "(p', s', g') = (p, s, g) \<or> (p', s', g') \<in> set (rmatch a (p, s, g))" by auto
  then show ?case using Opt.IH by auto
next
  case (Star a)
  from Star.prems have "(p', s', g') \<in> set (iterate (rmatch a) (length s) (p, s, g))" by simp
  then show ?case using Star.IH by (rule iterate_advances [rotated])
next
  case (Plus a)
  from Plus.prems obtain p1 s1 g1 where 1: "(p1, s1, g1) \<in> set (rmatch a (p, s, g))"
    and 2: "(p', s', g') \<in> set (iterate (rmatch a) (length s1) (p1, s1, g1))" by auto
  from Plus.IH [OF 1] obtain u1 where u1: "p1 = rev u1 @ p" "s = u1 @ s1" by blast
  from 2 Plus.IH have "\<exists>u. p' = rev u @ p1 \<and> s1 = u @ s'" by (rule iterate_advances [rotated])
  then obtain u2 where u2: "p' = rev u2 @ p1" "s1 = u2 @ s'" by blast
  from u1 u2 have "p' = rev (u1 @ u2) @ p \<and> s = (u1 @ u2) @ s'" by simp
  then show ?case by blast
next
  case (Group k a)
  from Group.prems obtain g1 where "(p', s', g1) \<in> set (rmatch a (p, s, g))" by auto
  then show ?case by (rule Group.IH)
qed

lemma exec_at_state:
  assumes "exec_at r p s = Some (n, g)"
  shows "\<exists>p' s' L. rmatch r (p, s, []) = (p', s', g) # L \<and> p' = rev (take n s) @ p \<and> s' = drop n s \<and> n \<le> length s"
proof -
  from assms obtain p' s' L where m: "rmatch r (p, s, []) = (p', s', g) # L" and n: "n = length s - length s'"
    by (auto simp: exec_at_def split: list.splits)
  then have "(p', s', g) \<in> set (rmatch r (p, s, []))" by simp
  then obtain u where u: "p' = rev u @ p" "s = u @ s'" by (blast dest: rmatch_advances)
  with n have "n = length u" by simp
  with u m show ?thesis by simp
qed

lemma member_eval_ends_paren:
  assumes "(p', s', g') \<in> set (rmatch re_member_eval (p, s, g))"
  shows "\<exists>q. p' = CHR '')'' # q"
proof -
  from assms obtain st where "(p', s', g') \<in> set (rmatch (Group 2 re_args) st)"
    by (auto simp: re_member_eval_def)
  then obtain st2 g2 where "(p', s', g2) \<in> set (rmatch (Str '')'') st2)"
    by (auto simp: re_args_def)
  then show ?thesis by (cases st2) (auto split: if_splits)
qed

text \<open>
  A call of a member \<open>eval\<close> at which the scan arrives does not follow a word character:
  the scan would have matched it together with that word.
\<close>

lemma chain_extend: "chain ((u @ w) # wt) = u @ chain (w # wt)"
  by (cases wt) simp_all

lemma member_eval_exec_longer:
  assumes "ws \<noteq> []" and "list_all is_word ws" and "CHR '')'' \<notin> set a"
    and "u \<noteq> []" and "list_all is_word_char u" and "\<not> word_before p"
  shows "\<exists>n g. exec_at re_member_eval p (u @ chain ws @ ''.eval('' @ a @ '')'' @ r) = Some (n, g) \<and> length u < n"
proof -
  from assms(1) obtain w wt where ws: "ws = w # wt" by (cases ws) auto
  let ?ws = "(u @ w) # wt"
  from assms(2,5) ws have "list_all is_word ?ws" by (simp add: is_word_def)
  then have "exec_at re_member_eval p (chain ?ws @ ''.eval('' @ a @ '')'' @ r)
       = Some (length (chain ?ws @ ''.eval('' @ a @ '')''), [(2, ''('' @ a @ '')''), (1, chain ?ws @ ''.eval'')])"
    using assms(6,3) by (intro member_eval_exec) simp_all
  moreover have "chain ?ws = u @ chain ws" using ws by (simp add: chain_extend)
  ultimately have "exec_at re_member_eval p (u @ chain ws @ ''.eval('' @ a @ '')'' @ r)
       = Some (length ((u @ chain ws) @ ''.eval('' @ a @ '')''), [(2, ''('' @ a @ '')''), (1, (u @ chain ws) @ ''.eval'')])"
    by simp
  then show ?thesis by simp
qed

lemma member_eval_scan_boundary:
  assumes ws: "ws \<noteq> []" "list_all is_word ws" "CHR '')'' \<notin> set a"
  shows "scan_to re_member_eval t p s k = Some out \<Longrightarrow>
     drop k s = chain ws @ ''.eval('' @ a @ '')'' @ r \<Longrightarrow>
     (word_before p \<longrightarrow> \<not> list_all is_word_char (take k s)) \<Longrightarrow>
     \<not> word_before (rev (take k s) @ p)"
proof (induction k arbitrary: p s out rule: less_induct)
  case (less k)
  note eq = less.prems(1) [unfolded scan_to.simps [of re_member_eval t p s k]]
  show ?case
  proof (cases "k = 0")
    case True
    with less.prems(3) show ?thesis by simp
  next
    case k: False
    from scan_to_replace [OF less.prems(1)] have kle: "k \<le> length s" by simp
    with k obtain c cs where s: "s = c # cs" by (cases s) auto
    from k obtain j where j: "k = Suc j" by (cases k) auto
    have split: "s = take k s @ chain ws @ ''.eval('' @ a @ '')'' @ r"
      using less.prems(2) append_take_drop_id [of k s] by simp
    have longer: "\<exists>n g. exec_at re_member_eval p s = Some (n, g) \<and> k < n"
      if "list_all is_word_char (take k s)" and "\<not> word_before p"
    proof -
      have "take k s \<noteq> []" using s j by simp
      from member_eval_exec_longer [OF ws this that, of r] split kle show ?thesis by simp
    qed
    have step: "\<not> word_before (rev (take k s) @ p)"
      if sc: "scan_to re_member_eval t (c # p) cs j = Some o1"
        and ex: "\<And>n g. exec_at re_member_eval p s = Some (n, g) \<Longrightarrow> n = 0" for o1
    proof -
      have inv: "word_before (c # p) \<longrightarrow> \<not> list_all is_word_char (take j cs)"
      proof (intro impI notI)
        assume w: "word_before (c # p)" and all: "list_all is_word_char (take j cs)"
        then have allk: "list_all is_word_char (take k s)" using s j by simp
        with less.prems(3) have "\<not> word_before p" by blast
        with allk longer obtain n g where "exec_at re_member_eval p s = Some (n, g)" and "k < n" by blast
        with ex [of n g] show False by simp
      qed
      have "drop j cs = chain ws @ ''.eval('' @ a @ '')'' @ r" using less.prems(2) s j by simp
      from less.IH [OF _ sc this inv] j have "\<not> word_before (rev (take j cs) @ c # p)" by simp
      then show ?thesis using s j by simp
    qed
    show ?thesis
    proof (cases "exec_at re_member_eval p s")
      case None
      with eq k s j obtain o1 where "scan_to re_member_eval t (c # p) cs j = Some o1" by auto
      then show ?thesis
      proof (rule step)
        fix n g assume "exec_at re_member_eval p s = Some (n, g)"
        with None show "n = 0" by simp
      qed
    next
      case (Some x)
      obtain n g where x: "x = (n, g)" by (cases x)
      show ?thesis
      proof (cases "n = 0")
        case True
        with eq k s j Some x obtain o1 where "scan_to re_member_eval t (c # p) cs j = Some o1" by auto
        then show ?thesis
        proof (rule step)
          fix n' g' assume "exec_at re_member_eval p s = Some (n', g')"
          with Some x True show "n' = 0" by simp
        qed
      next
        case n: False
        with eq k Some x obtain o1 where le: "n \<le> k"
          and o1: "scan_to re_member_eval t (rev (take n s) @ p) (drop n s) (k - n) = Some o1"
          by (auto split: if_splits)
        from exec_at_state [of re_member_eval p s n g] Some x
        obtain p' s' L where m: "rmatch re_member_eval (p, s, []) = (p', s', g) # L"
          and p': "p' = rev (take n s) @ p" by auto
        from m have "(p', s', g) \<in> set (rmatch re_member_eval (p, s, []))" by simp
        then obtain q where "p' = CHR '')'' # q" by (blast dest: member_eval_ends_paren)
        then have "\<not> word_before p'" by simp
        with p' have nw: "\<not> word_before (rev (take n s) @ p)" by blast
        have d: "drop (k - n) (drop n s) = chain ws @ ''.eval('' @ a @ '')'' @ r"
          using less.prems(2) le by simp
        from n le have "k - n < k" by simp
        from less.IH [OF this o1 d] nw
        have "\<not> word_before (rev (take (k - n) (drop n s)) @ rev (take n s) @ p)" by blast
        moreover have "rev (take (k - n) (drop n s)) @ rev (take n s) @ p = rev (take k s) @ p"
        proof -
          have "take n s @ take (k - n) (drop n s) = take k s"
            using le by (metis le_add_diff_inverse take_add)
          then have "rev (take n s @ take (k - n) (drop n s)) @ p = rev (take k s) @ p" by simp
          then show ?thesis by (simp only: rev_append append_assoc)
        qed
        ultimately show ?thesis by simp
      qed
    qed
  qed
qed

lemma member_eval_reached:
  assumes sc: "scan_to re_member_eval [TLit ''(1, '', TRef 1, TLit '')'', TRef 2] []
                 (pre @ (chain ws @ ''.eval('' @ a @ '')'') @ r) (length pre) = Some out"
    and ws: "ws \<noteq> []" "list_all is_word ws" "CHR '')'' \<notin> set a"
  shows "rule_member_eval (pre @ (chain ws @ ''.eval('' @ a @ '')'') @ r)
       = out @ ''(1, '' @ chain ws @ ''.eval)('' @ a @ '')''
           @ replace_from re_member_eval [TLit ''(1, '', TRef 1, TLit '')'', TRef 2]
               (rev (pre @ chain ws @ ''.eval('' @ a @ '')'')) r"
proof -
  let ?t = "[TLit ''(1, '', TRef 1, TLit '')'', TRef 2]"
  let ?m = "chain ws @ ''.eval('' @ a @ '')''"
  let ?s = "pre @ ?m @ r"
  have tk: "take (length pre) ?s = pre" and dr: "drop (length pre) ?s = ?m @ r" by simp_all
  from scan_to_replace [OF sc]
  have 1: "replace_from re_member_eval ?t [] ?s = out @ replace_from re_member_eval ?t (rev pre @ []) (?m @ r)"
    by (simp only: tk dr)
  have "\<not> word_before (rev (take (length pre) ?s) @ [])"
  proof (rule member_eval_scan_boundary [OF ws sc])
    show "drop (length pre) ?s = chain ws @ ''.eval('' @ a @ '')'' @ r" by simp
    show "word_before [] \<longrightarrow> \<not> list_all is_word_char (take (length pre) ?s)" by simp
  qed
  then have nb: "\<not> word_before (rev pre)" by simp
  from member_eval_replace [OF ws(1,2) nb ws(3), of r] 1 show ?thesis
    by (simp add: rule_member_eval_def replace_all_def)
qed


subsection \<open>The comment stripper and \<open>trim\<close>\<close>









lemma not_white [simp]: "\<not> is_white_space (CHR ''/'')"
  by (simp add: is_white_space_def)
















subsection \<open>The empty bundle\<close>

text \<open>
  Claim C1. \<open>postProcess\<close> returns null for an input that is not a string. It raises the
  empty-bundle error exactly when the input is a string and the text after trimming,
  optional comment stripping and the five substitutions has length zero. The empty
  string raises (with comment stripping on, provided the stripper maps the empty text to
  the empty text).
\<close>

theorem postProcess_empty_iff:
  "postProcess strip None opts = Inr None
   \<and> (postProcess strip b opts = Inl empty_bundle_error)
       = (case b of None \<Rightarrow> False
          | Some s \<Rightarrow> length (substitute (if stripComments opts then strip (trim s) else trim s)) = 0)
   \<and> (strip [] = [] \<longrightarrow> postProcess strip (Some []) opts = Inl empty_bundle_error)
   \<and> postProcess strip (Some []) \<lparr>stripComments = False\<rparr> = Inl empty_bundle_error"
  by (auto simp: postProcess_def Let_def substitute_Nil trim_Nil split: option.splits)

theorem postProcess_empty_iff_witness:
  "postProcess (\<lambda>s. s) None \<lparr>stripComments = True\<rparr> = Inr None
   \<and> postProcess (\<lambda>s. s) (Some []) \<lparr>stripComments = True\<rparr> = Inl empty_bundle_error
   \<and> postProcess (\<lambda>s. s) (Some '' '') \<lparr>stripComments = True\<rparr> = Inl empty_bundle_error
   \<and> postProcess (\<lambda>s. s) (Some ''x'') \<lparr>stripComments = True\<rparr> \<noteq> Inl empty_bundle_error"
proof -
  have a: "length (substitute (trim '' '')) = 0" by code_simp
  have b: "length (substitute (trim ''x'')) \<noteq> 0" by code_simp
  show ?thesis
    using postProcess_empty_iff [of "\<lambda>s. s" "\<lparr>stripComments = True\<rparr>" "Some '' ''"]
      postProcess_empty_iff [of "\<lambda>s. s" "\<lparr>stripComments = True\<rparr>" "Some ''x''"]
      a b
    by simp
qed

text \<open>
  Claim C10. The length check comes before the trailing semicolon is dropped: a text that
  is reduced to \<open>;\<close> by the substitutions is not rejected, although nothing is left of
  it once the semicolon is dropped. For the input \<open>;\<close> the result is \<open>() => (\<close>, two
  line feeds and \<open>)\<close>.
\<close>

theorem semicolon_only_not_rejected:
  "(substitute (if stripComments opts then strip (trim s) else trim s) = '';''
      \<longrightarrow> postProcess strip (Some s) opts = Inr (Some ''() => (\<newline>\<newline>)''))
   \<and> postProcess strip (Some '';'') \<lparr>stripComments = False\<rparr> = Inr (Some ''() => (\<newline>\<newline>)'')"
proof -
  have 1: "patch (wrap '';'') = ''() => (\<newline>\<newline>)''" by code_simp
  have 2: "postProcess strip (Some '';'') \<lparr>stripComments = False\<rparr> = Inr (Some ''() => (\<newline>\<newline>)'')"
    by code_simp
  from 1 2 show ?thesis by (simp add: postProcess_def Let_def)
qed

theorem semicolon_only_not_rejected_witness:
  "substitute (trim '' ; '') = '';''
   \<and> postProcess (\<lambda>s. s) (Some '' ; '') \<lparr>stripComments = False\<rparr> = Inr (Some ''() => (\<newline>\<newline>)'')"
proof -
  have 1: "substitute (trim '' ; '') = '';''" by code_simp
  show ?thesis
    using semicolon_only_not_rejected [of "\<lparr>stripComments = False\<rparr>" "\<lambda>s. s" "'' ; ''"] 1 by simp
qed

subsection \<open>Wrapping\<close>

text \<open>
  Claim C2. A non-empty text after the substitutions is wrapped and then patched. The
  wrapping step drops one trailing semicolon, then prefixes \<open>() => \<close> when the text
  starts with \<open>(\<close> and ends with \<open>)\<close>, and otherwise puts the text between
  \<open>() => (\<close>, a line feed, and a line feed, \<open>)\<close>. The inputs \<open>doStuff();\<close> and \<open>(a,b)\<close>
  give the two forms.
\<close>

theorem wrap_forms:
  "(substitute (if stripComments opts then strip (trim s) else trim s) \<noteq> []
      \<longrightarrow> postProcess strip (Some s) opts
            = Inr (Some (patch (wrap (substitute (if stripComments opts then strip (trim s) else trim s))))))
   \<and> wrap t =
     (let u = (if t \<noteq> [] \<and> last t = CHR '';'' then butlast t else t)
      in if u \<noteq> [] \<and> hd u = CHR ''('' \<and> last u = CHR '')'' then ''() => '' @ u
         else ''() => (\<newline>'' @ u @ ''\<newline>)'')
   \<and> postProcess strip (Some ''doStuff();'') \<lparr>stripComments = False\<rparr>
       = Inr (Some ''() => (\<newline>doStuff()\<newline>)'')
   \<and> postProcess strip (Some ''(a,b)'') \<lparr>stripComments = False\<rparr> = Inr (Some ''() => (a,b)'')"
proof -
  have 0: "substitute (if stripComments opts then strip (trim s) else trim s) \<noteq> []
      \<longrightarrow> postProcess strip (Some s) opts
            = Inr (Some (patch (wrap (substitute (if stripComments opts then strip (trim s) else trim s)))))"
    by (simp add: postProcess_def Let_def)
  have 1: "postProcess strip (Some ''doStuff();'') \<lparr>stripComments = False\<rparr>
       = Inr (Some ''() => (\<newline>doStuff()\<newline>)'')" by code_simp
  have 2: "postProcess strip (Some ''(a,b)'') \<lparr>stripComments = False\<rparr> = Inr (Some ''() => (a,b)'')"
    by code_simp
  have 3: "wrap t =
     (let u = (if t \<noteq> [] \<and> last t = CHR '';'' then butlast t else t)
      in if u \<noteq> [] \<and> hd u = CHR ''('' \<and> last u = CHR '')'' then ''() => '' @ u
         else ''() => (\<newline>'' @ u @ ''\<newline>)'')"
    by (simp add: wrap_def startsWith_single endsWith_single slice_drop_last Let_def)
  from 0 1 2 3 show ?thesis by blast
qed

theorem wrap_forms_witness:
  "substitute (trim ''  f(1);  '') \<noteq> []
   \<and> postProcess (\<lambda>s. s) (Some ''  f(1);  '') \<lparr>stripComments = False\<rparr>
       = Inr (Some (patch (wrap ''f(1);'')))
   \<and> wrap ''f(1);'' = ''() => (\<newline>f(1)\<newline>)''
   \<and> wrap ''(f)(1);'' = ''() => (f)(1)''"
proof -
  have 1: "substitute (trim ''  f(1);  '') = ''f(1);''" by code_simp
  show ?thesis
    using wrap_forms [of "\<lparr>stripComments = False\<rparr>" "\<lambda>s. s" "''  f(1);  ''" "''f(1);''"]
      wrap_forms [of "\<lparr>stripComments = False\<rparr>" "\<lambda>s. s" "''  f(1);  ''" "''(f)(1);''"] 1
    by simp
qed

subsection \<open>The patches after wrapping\<close>

text \<open>
  Claim C5. The claim is that only the literal text \<open>stdlib.\<close> is deleted. The pattern
  \<open>/stdlib./g\<close> has an unescaped dot, so \<open>stdlib\<close> followed by any character other than
  a line terminator is deleted: \<open>stdlib_init()\<close> becomes \<open>init()\<close>.
\<close>

theorem stdlib_patch_any_char:
  "patch_stdlib ''stdlib_init()'' = ''init()''
   \<and> postProcess strip (Some ''stdlib_init()'') \<lparr>stripComments = False\<rparr>
       = Inr (Some ''() => (\<newline>init()\<newline>)'')"
  by code_simp

text \<open>
  Claim C6. The claim is that every occurrence of \<open>setImmediate(() => resultCb(result))\<close>
  is replaced. \<open>replace\<close> with a string pattern replaces the first occurrence only: of
  two occurrences the second one stays.
\<close>

theorem setImmediate_patch_first_only:
  "patch_setImmediate ''setImmediate(() => resultCb(result));setImmediate(() => resultCb(result))''
     = ''resultCb(result);setImmediate(() => resultCb(result))''
   \<and> postProcess strip
        (Some ''setImmediate(() => resultCb(result));setImmediate(() => resultCb(result))'')
        \<lparr>stripComments = False\<rparr>
       = Inr (Some ''() => (\<newline>resultCb(result);setImmediate(() => resultCb(result))\<newline>)'')"
  by code_simp

subsection \<open>Build errors\<close>

text \<open>
  The sibling path: when \<open>postProcess\<close> raises, the handler calls
  \<open>writeError('Write error:', err.message, err, dest)\<close>, and the destination file is
  unlinked.
\<close>

lemma empty_bundle_removes_dest:
  "exit_code w = None \<Longrightarrow> \<not> stripComments av \<Longrightarrow>
   (case bundle_fn strip isWatching (\<lambda>src maps. (None, Some [])) src dest av w of
      (w', resolved) \<Rightarrow>
        logged w' = logged w @ [(''Write error: Bundled code is empty after postprocessing.'',
                                 JError empty_bundle_error)]
        \<and> (dest \<noteq> [] \<longrightarrow> files w' dest = None)
        \<and> \<not> resolved)"
  by (simp add: bundle_fn_def bundle_callback_def closeBundleStream_def writeError_def logError_def
      unlinkSync_def createBundleStream_def postProcess_def substitute_Nil trim_Nil endsWith_def
      empty_bundle_error_def new_Error_def Let_def)

text \<open>
  Claim C8. The claim is that on a build error the error is logged with the prefix
  \<open>Build error:\<close> and the destination file is removed. The callback calls
  \<open>writeError('Build error:', err)\<close> without the destination path, so the error is logged
  but nothing is unlinked: the file opened by \<open>createBundleStream\<close> is still there, empty,
  whether the process exits or, when watching, goes on and resolves the promise.
\<close>

theorem build_error_keeps_dest:
  "exit_code w = None \<Longrightarrow>
   (case bundle_fn strip isWatching (\<lambda>src maps. (Some e, None)) src dest av w of
      (w', resolved) \<Rightarrow>
        logged w' = logged w @ [(''Build error: '' @ to_string (JError e), Undefined)]
        \<and> files w' dest = Some []
        \<and> resolved = isWatching)"
  by (simp add: bundle_fn_def bundle_callback_def closeBundleStream_def writeError_def logError_def
      createBundleStream_def stream_end_def postProcess_def endsWith_def Let_def)

theorem build_error_keeps_dest_witness:
  "(case bundle_fn (\<lambda>s. s) False (\<lambda>src maps. (Some (JsError ''SyntaxError'' ''Unexpected token''), None))
           ''index.js'' ''dist/bundle.js'' \<lparr>stripComments = False, sourceMaps = False\<rparr>
           \<lparr>files = Map.empty(''dist/bundle.js'' \<mapsto> ''old''), logged = [], printed = [], exit_code = None\<rparr> of
      (w', resolved) \<Rightarrow>
        logged w' = [(''Build error: SyntaxError: Unexpected token'', Undefined)]
        \<and> files w' ''dist/bundle.js'' = Some []
        \<and> exit_code w' = Some 1
        \<and> \<not> resolved)"
  using build_error_keeps_dest [where w = "\<lparr>files = Map.empty(''dist/bundle.js'' \<mapsto> ''old''), logged = [], printed = [], exit_code = None\<rparr>"
      and strip = "\<lambda>s. s" and isWatching = False and e = "JsError ''SyntaxError'' ''Unexpected token''"
      and src = "''index.js''" and dest = "''dist/bundle.js''"
      and av = "\<lparr>stripComments = False, sourceMaps = False\<rparr>"]
  by (simp add: bundle_fn_def bundle_callback_def closeBundleStream_def writeError_def logError_def
      createBundleStream_def endsWith_def Let_def split: prod.splits)

subsection \<open>The rewrite of member \<open>eval\<close> calls\<close>

text \<open>
  Claim C3, as stated, fails. The regular expression takes everything up to the first
  \<open>)\<close> as the argument list, so a call of a member \<open>eval\<close> inside the argument list
  of another one is swallowed by the outer match; the rule for bare \<open>eval\<close> then
  rewrites it to \<open>b.(1, eval)(c)\<close>, not to \<open>(1, b.eval)(c)\<close>.
\<close>

theorem nested_member_eval_not_rewritten:
  "rule_member_eval ''a.eval(b.eval(c))'' = ''(1, a.eval)(b.eval(c))''
   \<and> postProcess (\<lambda>s. s) (Some ''a.eval(b.eval(c))'') \<lparr>stripComments = False\<rparr>
       = Inr (Some ''() => (1, a.eval)(b.(1, eval)(c))'')"
  by code_simp

text \<open>
  Claim C3, amended. Every occurrence of a chain of words joined by dots, \<open>.eval\<close> and a
  parenthesised argument list without \<open>)\<close> at which the scan arrives, that is, which
  does not lie inside an earlier match, is rewritten to the indirect call
  \<open>(1, chain.eval)(args)\<close>, whatever comes before and behind it, and the scan goes on
  behind it. In particular a call at the start of the text is rewritten, and a text that
  consists of such a call becomes the indirect call. The input \<open>foo.eval(bar)\<close> gives
  \<open>() => (1, foo.eval)(bar)\<close>.
\<close>

theorem member_eval_call_rewritten:
  assumes "ws \<noteq> []" and "list_all is_word ws" and "CHR '')'' \<notin> set a"
  shows "(scan_to re_member_eval [TLit ''(1, '', TRef 1, TLit '')'', TRef 2] []
              (pre @ (chain ws @ ''.eval('' @ a @ '')'') @ r) (length pre) = Some out
          \<longrightarrow> rule_member_eval (pre @ (chain ws @ ''.eval('' @ a @ '')'') @ r)
                = out @ ''(1, '' @ chain ws @ ''.eval)('' @ a @ '')''
                    @ replace_from re_member_eval [TLit ''(1, '', TRef 1, TLit '')'', TRef 2]
                        (rev (pre @ chain ws @ ''.eval('' @ a @ '')'')) r)
     \<and> rule_member_eval ((chain ws @ ''.eval('' @ a @ '')'') @ r)
         = ''(1, '' @ chain ws @ ''.eval)('' @ a @ '')''
             @ replace_from re_member_eval [TLit ''(1, '', TRef 1, TLit '')'', TRef 2]
                 (rev (chain ws @ ''.eval('' @ a @ '')'')) r
     \<and> rule_member_eval (chain ws @ ''.eval('' @ a @ '')'') = ''(1, '' @ chain ws @ ''.eval)('' @ a @ '')''
     \<and> postProcess strip (Some ''foo.eval(bar)'') \<lparr>stripComments = False\<rparr>
         = Inr (Some ''() => (1, foo.eval)(bar)'')"
proof -
  have "replace_from re_member_eval [TLit ''(1, '', TRef 1, TLit '')'', TRef 2] q [] = []" for q
    by (subst replace_from.simps) (simp add: member_eval_exec_Nil)
  then have "rule_member_eval (chain ws @ ''.eval('' @ a @ '')'') = ''(1, '' @ chain ws @ ''.eval)('' @ a @ '')''"
    using member_eval_replace [OF assms(1,2) _ assms(3), of "[]" "[]"]
    by (simp add: rule_member_eval_def replace_all_def)
  moreover have "rule_member_eval ((chain ws @ ''.eval('' @ a @ '')'') @ r)
         = ''(1, '' @ chain ws @ ''.eval)('' @ a @ '')''
             @ replace_from re_member_eval [TLit ''(1, '', TRef 1, TLit '')'', TRef 2]
                 (rev (chain ws @ ''.eval('' @ a @ '')'')) r"
    using member_eval_replace [OF assms(1,2) _ assms(3), of "[]" r]
    by (simp add: rule_member_eval_def replace_all_def)
  moreover have "postProcess strip (Some ''foo.eval(bar)'') \<lparr>stripComments = False\<rparr>
         = Inr (Some ''() => (1, foo.eval)(bar)'')"
    by code_simp
  moreover have "scan_to re_member_eval [TLit ''(1, '', TRef 1, TLit '')'', TRef 2] []
              (pre @ (chain ws @ ''.eval('' @ a @ '')'') @ r) (length pre) = Some out
          \<longrightarrow> rule_member_eval (pre @ (chain ws @ ''.eval('' @ a @ '')'') @ r)
                = out @ ''(1, '' @ chain ws @ ''.eval)('' @ a @ '')''
                    @ replace_from re_member_eval [TLit ''(1, '', TRef 1, TLit '')'', TRef 2]
                        (rev (pre @ chain ws @ ''.eval('' @ a @ '')'')) r"
    using member_eval_reached [OF _ assms] by blast
  ultimately show ?thesis by blast
qed

theorem member_eval_call_rewritten_witness:
  "[''c''] \<noteq> [] \<and> list_all is_word [''c''] \<and> CHR '')'' \<notin> set ''d''
   \<and> scan_to re_member_eval [TLit ''(1, '', TRef 1, TLit '')'', TRef 2] [] ''a.eval(b); c.eval(d);'' 11
       = Some ''(1, a.eval)(b); ''
   \<and> rule_member_eval ''a.eval(b); c.eval(d);'' = ''(1, a.eval)(b); (1, c.eval)(d);''
   \<and> scan_to re_member_eval [TLit ''(1, '', TRef 1, TLit '')'', TRef 2] [] ''x = c.eval(d)'' 4 = Some ''x = ''
   \<and> rule_member_eval ''x = c.eval(d)'' = ''x = (1, c.eval)(d)''
   \<and> rule_member_eval ''c.eval(d)'' = ''(1, c.eval)(d)''"
proof -
  let ?t = "[TLit ''(1, '', TRef 1, TLit '')'', TRef 2]"
  have 0: "[''c''] \<noteq> []" by simp
  have 1: "list_all is_word [''c'']" by code_simp
  have 2: "CHR '')'' \<notin> set ''d''" by simp
  have 3: "scan_to re_member_eval ?t [] (''a.eval(b); '' @ (chain [''c''] @ ''.eval('' @ ''d'' @ '')'') @ '';'')
             (length ''a.eval(b); '') = Some ''(1, a.eval)(b); ''"
    by code_simp
  have 4: "replace_from re_member_eval ?t (rev (''a.eval(b); '' @ chain [''c''] @ ''.eval('' @ ''d'' @ '')'')) '';'' = '';''"
    by code_simp
  have 5: "scan_to re_member_eval ?t [] (''x = '' @ (chain [''c''] @ ''.eval('' @ ''d'' @ '')'') @ [])
             (length ''x = '') = Some ''x = ''"
    by code_simp
  have 6: "replace_from re_member_eval ?t (rev (''x = '' @ chain [''c''] @ ''.eval('' @ ''d'' @ '')'')) [] = []"
    by code_simp
  note A = member_eval_call_rewritten [of "[''c'']" "''d''" "''a.eval(b); ''" "'';''" "''(1, a.eval)(b); ''", OF 0 1 2]
  note B = member_eval_call_rewritten [of "[''c'']" "''d''" "''x = ''" "[]" "''x = ''", OF 0 1 2]
  have a: "rule_member_eval ''a.eval(b); c.eval(d);'' = ''(1, a.eval)(b); (1, c.eval)(d);''"
    using A [THEN conjunct1, THEN mp, OF 3] 4 by simp
  have b: "rule_member_eval ''x = c.eval(d)'' = ''x = (1, c.eval)(d)''"
    using B [THEN conjunct1, THEN mp, OF 5] 6 by simp
  have c: "rule_member_eval ''c.eval(d)'' = ''(1, c.eval)(d)''"
    using A [THEN conjunct2, THEN conjunct2, THEN conjunct1] by simp
  have s3: "scan_to re_member_eval ?t [] ''a.eval(b); c.eval(d);'' 11 = Some ''(1, a.eval)(b); ''"
    by code_simp
  have s5: "scan_to re_member_eval ?t [] ''x = c.eval(d)'' 4 = Some ''x = ''"
    by code_simp
  from 1 2 s3 s5 a b c show ?thesis by simp
qed

subsection \<open>The HTML comment rule\<close>

text \<open>
  Claim C9. The rule that puts a space into \<open><!--\<close> and into \<open>-->\<close> is idempotent:
  applying it twice gives the same text as applying it once.
\<close>

theorem rule_html_idempotent: "rule_html (rule_html t) = rule_html t"
  by (simp add: rule_html_def open_fixed_close open_idem close_idem)

subsection \<open>The \<open>self\<close> patch replaces substrings\<close>

text \<open>
  Claim C7, as stated, fails: the pattern \<open>/self/g\<close> has no word boundaries, so the
  \<open>self\<close> inside the identifier \<open>myself\<close> is replaced too.
\<close>

theorem self_inside_identifier_replaced:
  "patch_self ''myself'' = ''mywindow''
   \<and> postProcess (\<lambda>s. s) (Some ''myself'') \<lparr>stripComments = False\<rparr>
       = Inr (Some ''() => (\<newline>mywindow\<newline>)'')"
  by code_simp

text \<open>
  Claim C7, amended. Every occurrence of the substring \<open>self\<close>, inside an identifier or
  not, is replaced with \<open>window\<close>; the input \<open>self.postMessage(x)\<close> gives a text
  that contains \<open>window.postMessage(x)\<close>.
\<close>

theorem self_substring_replaced:
  "patch_self (a @ ''self'' @ b) = patch_self a @ ''window'' @ patch_self b
   \<and> postProcess strip (Some ''self.postMessage(x)'') \<lparr>stripComments = False\<rparr>
       = Inr (Some ''() => (\<newline>window.postMessage(x)\<newline>)'')"
proof -
  have "postProcess strip (Some ''self.postMessage(x)'') \<lparr>stripComments = False\<rparr>
       = Inr (Some ''() => (\<newline>window.postMessage(x)\<newline>)'')"
    by code_simp
  with patch_self_split [of a b] show ?thesis by blast
qed

subsection \<open>Comment stripping comes first\<close>




end
